theory Spec2Isabelle
  imports Main "HOL-Library.Word"
begin

section \<open>Python values and exceptions\<close>

text \<open>
  The exceptions that the modelled code can raise. In Python every one of them derives
  from \<open>Exception\<close> except \<open>KeyboardInterrupt\<close>, which derives from
  \<open>BaseException\<close> only, so that \<open>except Exception\<close> does not catch it.
\<close>

datatype py_exn = EOFError | KeyboardInterrupt | RequestException | KeyError
  | ValueError | IndexError | ZeroDivisionError | OSError

definition is_Exception :: "py_exn \<Rightarrow> bool" where
  "is_Exception e = (e \<noteq> KeyboardInterrupt)"

text \<open>Python's \<open>xs[i]\<close>: a negative index counts from the end, out of range raises.\<close>

definition getitem :: "'a list \<Rightarrow> int \<Rightarrow> py_exn + 'a" where
  "getitem xs i =
     (if 0 \<le> i \<and> i < int (length xs) then Inr (xs ! nat i)
      else if i < 0 \<and> - int (length xs) \<le> i then Inr (xs ! nat (int (length xs) + i))
      else Inl IndexError)"

section \<open>Double-precision arithmetic of the palette index\<close>

text \<open>
  \<open>int(pixel / 255 * (len(ascii_chars) - 1))\<close> is computed in IEEE 754 binary64:
  a true division of two ints, rounded to nearest (ties to even), a multiplication by
  an int converted to a float, rounded the same way, and a truncation. A positive
  double is the pair \<open>(m, e)\<close> standing for \<open>m * 2 ^ e\<close>, with a 53-bit \<open>m\<close>.
  Only non-negative values in the normal range occur here.
\<close>

type_synonym double = "int \<times> int"

fun bit_length :: "int \<Rightarrow> int" where
  "bit_length n = (if n \<le> 0 then 0 else 1 + bit_length (n div 2))"

declare bit_length.simps [simp del]

definition round_half_even :: "int \<Rightarrow> int \<Rightarrow> int" where
  "round_half_even a b =
     (let q = a div b; r = a mod b
      in if 2 * r < b then q
         else if b < 2 * r then q + 1
         else if even q then q else q + 1)"

definition scale :: "int \<Rightarrow> int \<Rightarrow> int" where
  "scale a k = (if 0 \<le> k then a * 2 ^ nat k else a)"

text \<open>The double nearest to the fraction \<open>a / b\<close>, for \<open>0 \<le> a\<close> and \<open>0 < b\<close>.\<close>

definition to_double :: "int \<Rightarrow> int \<Rightarrow> double" where
  "to_double a b =
     (if a = 0 then (0, 0)
      else let e0 = bit_length a - bit_length b;
               e = (if scale b e0 \<le> scale a (- e0) then e0 else e0 - 1);
               k = 52 - e
           in (round_half_even (scale a k) (scale b (- k)), - k))"

definition float_of_int :: "int \<Rightarrow> double" where
  "float_of_int n = to_double n 1"

definition truediv :: "int \<Rightarrow> int \<Rightarrow> double" where
  "truediv a b = to_double a b"

definition fmul :: "double \<Rightarrow> double \<Rightarrow> double" where
  "fmul x y =
     (case (x, y) of ((m1, e1), (m2, e2)) \<Rightarrow>
        to_double (scale (m1 * m2) (e1 + e2)) (scale 1 (- (e1 + e2))))"

definition int_of_float :: "double \<Rightarrow> int" where
  "int_of_float x = (case x of (m, e) \<Rightarrow> scale m e div scale 1 (- e))"

section \<open>The bitmap-to-text renderer\<close>

text \<open>
  The palette of \<open>image_to_ascii_enhanced\<close>, from the lightest character to the
  darkest. The Python literal escapes the apostrophe and the backslash.
\<close>

definition ascii_chars :: string where
  "ascii_chars = '' .'' @ [CHR 0x27] @ ''`^\"'' @ '',:;Il!i~+?_][}{1)(|'' @ [CHR 0x5C] @
     ''/tfjrxnuvczXYUJCLQ0OZmwqpdbkhao*#MW&8%B@$''"

definition char_index :: "int \<Rightarrow> int" where
  "char_index pixel =
     int_of_float (fmul (truediv pixel 255) (float_of_int (int (length ascii_chars) - 1)))"

definition newline :: char where
  "newline = CHR 0x0A"

text \<open>
  The loop over \<open>enumerate(pixels)\<close>. \<open>i % width\<close> raises when \<open>width\<close> is zero;
  on \<open>int\<close>, \<open>mod\<close> takes the sign of the divisor as Python's \<open>%\<close> does.
  A pixel of a mode \<open>L\<close> image is an unsigned byte.
\<close>

fun ascii_loop :: "int \<Rightarrow> (nat \<times> 8 word) list \<Rightarrow> string \<Rightarrow> py_exn + string" where
  "ascii_loop width [] ascii_str = Inr ascii_str"
| "ascii_loop width ((i, pixel) # rest) ascii_str =
     (if width = 0 then Inl ZeroDivisionError
      else let ascii_str1 =
                 (if int i mod width = 0 \<and> i \<noteq> 0 then ascii_str @ [newline] else ascii_str)
           in case getitem ascii_chars (char_index (uint pixel)) of
                Inl e \<Rightarrow> Inl e
              | Inr c \<Rightarrow> ascii_loop width rest (ascii_str1 @ [c, c]))"

text \<open>
  \<open>image_to_ascii_enhanced\<close> from the point where the image has been resized and
  converted to luminance: \<open>width\<close> is the width it was resized to and \<open>pixels\<close>
  is \<open>list(image.getdata())\<close>, row after row. The sizing before that point is
  floating-point arithmetic on the terminal and image sizes and a call of the imaging
  library.
\<close>

definition image_to_ascii_enhanced :: "int \<Rightarrow> 8 word list \<Rightarrow> py_exn + string" where
  "image_to_ascii_enhanced width pixels = ascii_loop width (enumerate 0 pixels) []"

text \<open>\<open>s.split(sep)\<close> for a separator of one character.\<close>

fun split_on :: "char \<Rightarrow> string \<Rightarrow> string list" where
  "split_on sep [] = [[]]"
| "split_on sep (c # cs) =
     (if c = sep then [] # split_on sep cs
      else case split_on sep cs of [] \<Rightarrow> [[c]] | l # ls \<Rightarrow> (c # l) # ls)"

text \<open>The character of one pixel and the text of one row, each character twice.\<close>

definition pixel_char :: "8 word \<Rightarrow> char" where
  "pixel_char pixel = ascii_chars ! nat (uint pixel * 66 div 255)"

definition row_text :: "8 word list \<Rightarrow> string" where
  "row_text row = concat (map (\<lambda>p. [pixel_char p, pixel_char p]) row)"

text \<open>The rows of an image of \<open>h\<close> rows of \<open>w\<close> pixels, and the text appended for one pixel.\<close>

primrec rows :: "nat \<Rightarrow> nat \<Rightarrow> 'a list \<Rightarrow> 'a list list" where
  "rows w 0 ps = []"
| "rows w (Suc h) ps = take w ps # rows w h (drop w ps)"

definition pixel_text :: "int \<Rightarrow> nat \<times> 8 word \<Rightarrow> string" where
  "pixel_text w ip = (if int (fst ip) mod w = 0 \<and> fst ip \<noteq> 0 then [newline] else [])
        @ [pixel_char (snd ip), pixel_char (snd ip)]"

section \<open>Console input and strings\<close>

text \<open>
  Standard input is a list of lines and interrupts; \<open>input()\<close> returns the next
  line, raises \<open>EOFError\<close> when the input has ended and \<open>KeyboardInterrupt\<close>
  when the user interrupts. Strings are lists of characters with codes below 256.
\<close>

datatype stdin_item = Line string | Interrupt

definition isspace :: "char \<Rightarrow> bool" where
  "isspace c = (c \<in> set [CHR 0x09, CHR 0x0A, CHR 0x0B, CHR 0x0C, CHR 0x0D, CHR 0x1C,
     CHR 0x1D, CHR 0x1E, CHR 0x1F, CHR 0x20, CHR 0x85, CHR 0xA0])"

definition strip :: "string \<Rightarrow> string" where
  "strip s = rev (dropWhile isspace (rev (dropWhile isspace s)))"

definition lower_char :: "char \<Rightarrow> char" where
  "lower_char c =
     (let n = (of_char c :: nat)
      in if (65 \<le> n \<and> n \<le> 90) \<or> (192 \<le> n \<and> n \<le> 222 \<and> n \<noteq> 215)
         then char_of (n + 32) else c)"

definition lower :: "string \<Rightarrow> string" where
  "lower s = map lower_char s"

definition digit_char :: "nat \<Rightarrow> char" where
  "digit_char d = char_of (48 + d)"

fun digits :: "nat \<Rightarrow> string" where
  "digits n = (if n < 10 then [digit_char n] else digits (n div 10) @ [digit_char (n mod 10)])"

declare digits.simps [simp del]

definition str_int :: "int \<Rightarrow> string" where
  "str_int n = (if n < 0 then CHR ''-'' # digits (nat (- n)) else digits (nat n))"

section \<open>The catalog service\<close>

text \<open>
  A chapter of the feed: \<open>ch['id']\<close> and \<open>ch['attributes']['chapter']\<close>, which is
  a string or JSON \<open>null\<close>. The chapter number handed to \<open>read_chapter_enhanced\<close>
  is what \<open>search\<close> passes: that string, or the int \<open>1\<close>.
\<close>

record chapter_entry =
  chapter_id :: string
  chapter_attr :: "string option"

datatype chapter_number = StrNum string | IntNum int

fun str :: "chapter_number \<Rightarrow> string" where
  "str (StrNum s) = s"
| "str (IntNum n) = str_int n"

text \<open>
  The reply of the at-home server: a failed request (\<open>requests.RequestException\<close>,
  which \<open>get_chapter_pages\<close> catches) or the decoded JSON object, whose keys may be
  missing; \<open>chapter_obj\<close> is the object under the key \<open>'chapter'\<close>.
\<close>

record at_home_chapter =
  hash :: "string option"
  data :: "string list option"

record at_home =
  baseUrl :: "string option"
  chapter_obj :: "at_home_chapter option"

datatype 'a response = Failed | Json 'a

datatype strategy = Native | SystemViewer | Browser

text \<open>
  What the session observes of the world. \<open>get_chapters\<close> is the result of the method
  of that name, \<open>None\<close> or the list under \<open>'data'\<close>; \<open>str_float s\<close> is Python's
  \<open>str(float(s))\<close>; \<open>at_home_server\<close> is the reply for a chapter id. The others
  are asked in iteration \<open>n\<close> of the page loop: \<open>fetch_image\<close> is the exception, if
  any, of \<open>requests.get\<close>, \<open>raise_for_status\<close> and \<open>Image.open\<close> on a URL;
  \<open>display_image_native\<close>, \<open>display_image_terminal\<close> and
  \<open>display_image_browser\<close> are the booleans those methods return (each catches
  \<open>Exception\<close> itself); \<open>image_save\<close> and \<open>show_ascii\<close> are the exceptions, if
  any, of saving the temporary file and of rendering and printing the ASCII panel.
  \<open>os_remove\<close> is the exception, if any, of \<open>os.remove\<close> on the temporary file of
  a page number, in the cleanup after the loop.
\<close>

record env =
  get_chapters :: "string \<Rightarrow> chapter_entry list option"
  str_float :: "string \<Rightarrow> py_exn + string"
  at_home_server :: "string \<Rightarrow> at_home response"
  fetch_image :: "nat \<Rightarrow> string \<Rightarrow> py_exn option"
  display_image_native :: "nat \<Rightarrow> int \<Rightarrow> bool"
  image_save :: "nat \<Rightarrow> int \<Rightarrow> py_exn option"
  display_image_terminal :: "nat \<Rightarrow> int \<Rightarrow> bool"
  display_image_browser :: "nat \<Rightarrow> string \<Rightarrow> bool"
  show_ascii :: "nat \<Rightarrow> int \<Rightarrow> py_exn option"
  os_remove :: "int \<Rightarrow> py_exn option"

definition get_chapter_pages :: "env \<Rightarrow> string \<Rightarrow> py_exn + string list option" where
  "get_chapter_pages e cid =
     (case at_home_server e cid of
        Failed \<Rightarrow> Inr None
      | Json d \<Rightarrow>
          (case baseUrl d of
             None \<Rightarrow> Inl KeyError
           | Some base_url \<Rightarrow>
               (case chapter_obj d of
                  None \<Rightarrow> Inl KeyError
                | Some c \<Rightarrow>
                    (case hash c of
                       None \<Rightarrow> Inl KeyError
                     | Some chapter_hash \<Rightarrow>
                         (case data c of
                            None \<Rightarrow> Inl KeyError
                          | Some fs \<Rightarrow>
                              Inr (Some (map (\<lambda>f. base_url @ ''/data/'' @ chapter_hash @ ''/'' @ f)
                                          fs)))))))"

section \<open>The reading session\<close>

text \<open>
  The search for the target chapter: the first chapter whose attribute is truthy and
  for which \<open>str(float(attribute)) == str(chapter_number)\<close>; \<open>float\<close> raises
  \<open>ValueError\<close> on a string that is not a number.
\<close>

fun find_target :: "(string \<Rightarrow> py_exn + string) \<Rightarrow> chapter_entry list \<Rightarrow> string
    \<Rightarrow> py_exn + chapter_entry option" where
  "find_target sf [] wanted = Inr None"
| "find_target sf (ch # rest) wanted =
     (case chapter_attr ch of
        None \<Rightarrow> find_target sf rest wanted
      | Some a \<Rightarrow>
          if a = [] then find_target sf rest wanted
          else (case sf a of
                  Inl e \<Rightarrow> Inl e
                | Inr s \<Rightarrow> if s = wanted then Inr (Some ch) else find_target sf rest wanted))"

text \<open>
  The choice of the target chapter: the chapter found, or the first of the list
  (\<open>chapters_data['data'][0]\<close>) when none was found.
\<close>

definition select_chapter :: "(string \<Rightarrow> py_exn + string) \<Rightarrow> chapter_entry \<Rightarrow> chapter_entry list
    \<Rightarrow> chapter_number \<Rightarrow> py_exn + chapter_entry" where
  "select_chapter sf first others chapter_number =
     (case find_target sf (first # others) (str chapter_number) of
        Inl x \<Rightarrow> Inl x
      | Inr None \<Rightarrow> Inr first
      | Inr (Some ch) \<Rightarrow> Inr ch)"

text \<open>
  \<open>read_chapter_enhanced\<close> up to the prompt: an exception that escapes, \<open>None\<close>
  where the method returns \<open>False\<close> (no chapters, no pages), or the page URLs, a
  list that is not empty.
\<close>

definition open_chapter :: "env \<Rightarrow> string \<Rightarrow> chapter_number \<Rightarrow> py_exn + string list option" where
  "open_chapter e manga_id chapter_number =
     (case get_chapters e manga_id of
        None \<Rightarrow> Inr None
      | Some [] \<Rightarrow> Inr None
      | Some (first # others) \<Rightarrow>
          (case select_chapter (str_float e) first others chapter_number of
             Inl x \<Rightarrow> Inl x
           | Inr target_chapter \<Rightarrow>
               (case get_chapter_pages e (chapter_id target_chapter) of
                  Inl x \<Rightarrow> Inl x
                | Inr None \<Rightarrow> Inr None
                | Inr (Some []) \<Rightarrow> Inr None
                | Inr (Some (p # ps)) \<Rightarrow> Inr (Some (p # ps)))))"

text \<open>
  What a session does, in order: a page fetched at an index, a display attempted by a
  strategy for a page number with its result, a temporary file saved, a page rendered
  as ASCII, input awaited at an index, a temporary file removed, and \<open>pages[i]\<close>
  raising \<open>IndexError\<close> at an index.
\<close>

datatype event = Fetch int string | Attempt strategy int bool | SaveTemp int
  | Ascii int | AwaitInput int | RemoveTemp int | BadIndex int

text \<open>
  The display part of one iteration (from \<open>display_success = False\<close> to the ASCII
  panel), for the page at index \<open>i\<close>. The result is the exception raised, or the
  value of \<open>display_choice\<close> at the end; with it the events and the set of page
  numbers whose temporary file exists.
\<close>

definition display_page :: "env \<Rightarrow> nat \<Rightarrow> int \<Rightarrow> string \<Rightarrow> string \<Rightarrow> int set
    \<Rightarrow> (py_exn + string) \<times> event list \<times> int set" where
  "display_page e n i url display_choice files =
     (let page_num = i + 1;
          (s1, c1, ev1) =
             (if display_choice = ''1''
              then let ok = display_image_native e n page_num
                   in (ok, if ok then display_choice else ''4'', [Attempt Native page_num ok])
              else (False, display_choice, []))
      in case (if c1 = ''2'' then image_save e n page_num else None) of
           Some x \<Rightarrow> (Inl x, ev1, files)
         | None \<Rightarrow>
             let (s2, c2, ev2, files2) =
                   (if c1 = ''2''
                    then let ok = display_image_terminal e n page_num
                         in (ok, if ok then c1 else ''4'',
                             ev1 @ [SaveTemp page_num, Attempt SystemViewer page_num ok],
                             insert page_num files)
                    else (s1, c1, ev1, files));
                 (s3, c3, ev3) =
                   (if c2 = ''3''
                    then let ok = display_image_browser e n url
                         in (ok, if ok then c2 else ''4'', ev2 @ [Attempt Browser page_num ok])
                    else (s2, c2, ev2))
             in if c3 = ''4'' \<or> \<not> s3
                then (case show_ascii e n page_num of
                        Some x \<Rightarrow> (Inl x, ev3, files2)
                      | None \<Rightarrow> (Inr c3, ev3 @ [Ascii page_num], files2))
                else (Inr c3, ev3, files2))"

text \<open>The handler \<open>except Exception: ... break\<close>: anything else escapes.\<close>

definition handler :: "py_exn \<Rightarrow> py_exn option" where
  "handler x = (if is_Exception x then None else Some x)"

text \<open>The three-way branch on the user's input at index \<open>i\<close>.\<close>

datatype nav = Quit | Goto int

definition navigate :: "string \<Rightarrow> int \<Rightarrow> nav" where
  "navigate user_input i =
     (if user_input = ''q'' then Quit
      else if user_input = ''b'' \<and> i > 0 then Goto (i - 1)
      else Goto (i + 1))"

text \<open>
  One iteration of the \<open>while\<close> loop, the \<open>n\<close>-th, at index \<open>i\<close>: the body
  of the \<open>try\<close> and its handler. It stops the loop, with the exception that escapes
  if there is one, or goes on at an index with the \<open>display_choice\<close> it leaves.
\<close>

datatype step = Stop "py_exn option" | Next int string

definition page_step :: "env \<Rightarrow> string list \<Rightarrow> nat \<Rightarrow> int \<Rightarrow> string \<Rightarrow> int set
    \<Rightarrow> stdin_item list \<Rightarrow> step \<times> event list \<times> int set \<times> stdin_item list" where
  "page_step e pages n i display_choice files inp =
     (case getitem pages i of
        Inl x \<Rightarrow> (Stop (handler x), [BadIndex i], files, inp)
      | Inr url \<Rightarrow>
          (case fetch_image e n url of
             Some x \<Rightarrow> (Stop (handler x), [Fetch i url], files, inp)
           | None \<Rightarrow>
               (case display_page e n i url display_choice files of
                  (Inl x, evs, files') \<Rightarrow> (Stop (handler x), Fetch i url # evs, files', inp)
                | (Inr c, evs, files') \<Rightarrow>
                    (case inp of
                       [] \<Rightarrow>
                         (Stop (handler EOFError), Fetch i url # evs @ [AwaitInput i], files', [])
                     | Interrupt # rest \<Rightarrow>
                         (Stop (handler KeyboardInterrupt), Fetch i url # evs @ [AwaitInput i],
                          files', rest)
                     | Line s # rest \<Rightarrow>
                         (case navigate (lower (strip s)) i of
                            Quit \<Rightarrow> (Stop None, Fetch i url # evs @ [AwaitInput i], files', rest)
                          | Goto j \<Rightarrow>
                              (Next j c, Fetch i url # evs @ [AwaitInput i], files', rest))))))"

text \<open>
  The \<open>while\<close> loop from iteration \<open>n\<close> at index \<open>i\<close>. The result is the
  exception that escapes the loop, if any, with the events, the temporary files and the
  input that is left. An iteration that goes on has read a line, so the loop ends with
  the input.
\<close>

function page_loop :: "env \<Rightarrow> string list \<Rightarrow> int \<Rightarrow> nat \<Rightarrow> int \<Rightarrow> string \<Rightarrow> int set
    \<Rightarrow> stdin_item list \<Rightarrow> py_exn option \<times> event list \<times> int set \<times> stdin_item list" where
  "page_loop e pages max_pages n i display_choice files inp =
     (if \<not> i < min max_pages (int (length pages)) then (None, [], files, inp)
      else case page_step e pages n i display_choice files inp of
             (Stop r, evs, files', inp') \<Rightarrow> (r, evs, files', inp')
           | (Next j c, evs, files', inp') \<Rightarrow>
               (case page_loop e pages max_pages (Suc n) j c files' inp' of
                  (r, evs', out) \<Rightarrow> (r, evs @ evs', out)))"
  by pat_completeness auto

lemma page_step_Next_shorter:
  "page_step e pages n i c files inp = (Next j c', evs, files', inp') \<Longrightarrow>
     length inp' < length inp"
  by (auto simp: page_step_def
           split: sum.splits option.splits prod.splits list.splits stdin_item.splits nav.splits)

termination page_loop
  by (relation "measure (\<lambda>(e, pages, max_pages, n, i, c, files, inp). length inp)")
     (auto dest: page_step_Next_shorter [OF sym])

declare page_loop.simps [simp del]

text \<open>
  The cleanup after the loop, for \<open>j\<close> in \<open>range(len(pages))\<close>: the temporary
  file of page \<open>j + 1\<close> is removed when it exists. The cleanup is outside every
  \<open>try\<close>, so an exception of \<open>os.remove\<close> ends it and escapes the method.
\<close>

definition temp_numbers :: "string list \<Rightarrow> int list" where
  "temp_numbers pages = map (\<lambda>j. int j + 1) [0..<length pages]"

fun cleanup :: "env \<Rightarrow> int list \<Rightarrow> int set \<Rightarrow> py_exn option \<times> event list \<times> int set" where
  "cleanup e [] files = (None, [], files)"
| "cleanup e (k # ks) files =
     (if k \<in> files
      then (case os_remove e k of
              Some x \<Rightarrow> (Some x, [], files)
            | None \<Rightarrow>
                (case cleanup e ks (files - {k}) of
                   (r, evs, files') \<Rightarrow> (r, RemoveTemp k # evs, files')))
      else cleanup e ks files)"

definition read_chapter_enhanced :: "env \<Rightarrow> string \<Rightarrow> chapter_number \<Rightarrow> int \<Rightarrow> int set
    \<Rightarrow> stdin_item list \<Rightarrow> (py_exn + bool) \<times> event list \<times> int set \<times> stdin_item list" where
  "read_chapter_enhanced e manga_id chapter_number max_pages files inp =
     (case open_chapter e manga_id chapter_number of
        Inl x \<Rightarrow> (Inl x, [], files, inp)
      | Inr None \<Rightarrow> (Inr False, [], files, inp)
      | Inr (Some pages) \<Rightarrow>
          (case inp of
             [] \<Rightarrow> (Inr False, [], files, [])
           | Interrupt # rest \<Rightarrow> (Inr False, [], files, rest)
           | Line s # rest \<Rightarrow>
               let display_choice = (if strip s = [] then ''1'' else strip s)
               in (case page_loop e pages max_pages 0 0 display_choice files rest of
                     (Some x, evs, files', rest') \<Rightarrow> (Inl x, evs, files', rest')
                   | (None, evs, files', rest') \<Rightarrow>
                       (case cleanup e (temp_numbers pages) files' of
                          (Some x, cevs, files'') \<Rightarrow> (Inl x, evs @ cevs, files'', rest')
                        | (None, cevs, files'') \<Rightarrow> (Inr True, evs @ cevs, files'', rest')))))"

text \<open>A page counts as displayed by a successful attempt or by the ASCII panel.\<close>

fun displayed :: "event \<Rightarrow> bool" where
  "displayed (Attempt s k ok) = ok"
| "displayed (Ascii k) = True"
| "displayed ev = False"

fun is_attempt :: "event \<Rightarrow> bool" where
  "is_attempt (Attempt s k ok) = True"
| "is_attempt ev = False"

text \<open>No strategy is attempted after an attempt that failed.\<close>

fun no_attempt_after_failure :: "event list \<Rightarrow> bool" where
  "no_attempt_after_failure [] = True"
| "no_attempt_after_failure (Attempt s k False # evs) = (\<not> list_ex is_attempt evs)"
| "no_attempt_after_failure (ev # evs) = no_attempt_after_failure evs"

text \<open>
  Every wait for input at an index comes right after the ASCII panel of that page, and
  this holds of what follows an attempt that failed.
\<close>

fun ascii_before_input :: "event list \<Rightarrow> bool" where
  "ascii_before_input [] = True"
| "ascii_before_input (Ascii k # AwaitInput i # evs) = (k = i + 1 \<and> ascii_before_input evs)"
| "ascii_before_input (AwaitInput i # evs) = False"
| "ascii_before_input (ev # evs) = ascii_before_input evs"

fun ascii_after_failure :: "event list \<Rightarrow> bool" where
  "ascii_after_failure [] = True"
| "ascii_after_failure (Attempt s k False # evs) = ascii_before_input evs"
| "ascii_after_failure (ev # evs) = ascii_after_failure evs"

text \<open>
  The index of an event that fetches a page, fails to index the page list or awaits
  input lies in the range.
\<close>

fun index_in_range :: "int \<Rightarrow> event \<Rightarrow> bool" where
  "index_in_range bound (Fetch i url) = (0 \<le> i \<and> i < bound)"
| "index_in_range bound (BadIndex i) = (0 \<le> i \<and> i < bound)"
| "index_in_range bound (AwaitInput i) = (0 \<le> i \<and> i < bound)"
| "index_in_range bound ev = True"

section \<open>The progress store\<close>

record manga_entry =
  title :: string
  read_chapters :: "chapter_number list"
  last_read :: "string option"
  total_chapters :: int

text \<open>
  \<open>self.data\<close> and the contents of \<open>manga_data.json\<close>, \<open>None\<close> while the file
  does not exist. Writing the file is taken to succeed.
\<close>

record tracker_data =
  tracked_manga :: "string \<rightharpoonup> manga_entry"
  last_check :: "string option"

record tracker =
  tdata :: tracker_data
  data_file :: "tracker_data option"

definition save_data :: "tracker \<Rightarrow> tracker" where
  "save_data t = t\<lparr>data_file := Some (tdata t)\<rparr>"

definition track_manga :: "tracker \<Rightarrow> string \<Rightarrow> string \<Rightarrow> tracker" where
  "track_manga t manga_id ttl =
     (case tracked_manga (tdata t) manga_id of
        None \<Rightarrow>
          save_data (t\<lparr>tdata := (tdata t)\<lparr>tracked_manga := (tracked_manga (tdata t))
            (manga_id \<mapsto> \<lparr>title = ttl, read_chapters = [], last_read = None,
                           total_chapters = 0\<rparr>)\<rparr>\<rparr>)
      | Some m \<Rightarrow> t)"

text \<open>\<open>now\<close> is \<open>datetime.now().isoformat()\<close>.\<close>

definition mark_chapter_read :: "string \<Rightarrow> tracker \<Rightarrow> string \<Rightarrow> chapter_number \<Rightarrow> tracker" where
  "mark_chapter_read now t manga_id chapter_number =
     (case tracked_manga (tdata t) manga_id of
        None \<Rightarrow> t
      | Some m \<Rightarrow>
          if chapter_number \<notin> set (read_chapters m)
          then save_data (t\<lparr>tdata := (tdata t)\<lparr>tracked_manga := (tracked_manga (tdata t))
                 (manga_id \<mapsto> m\<lparr>read_chapters := read_chapters m @ [chapter_number],
                                 last_read := Some now\<rparr>)\<rparr>\<rparr>)
          else t)"

section \<open>The tail of the search command\<close>

text \<open>
  \<open>search\<close> from the question \<open>Track manga?\<close> on, for the manga selected.
  \<open>feed\<close> is the reply to its own call of \<open>get_chapters\<close>. Nothing here catches
  an exception: one raised by \<open>input\<close> or by the session escapes, and what follows
  it is not run. The result is the exception, if any, the tracker, and the events, files
  and input left by the session.
\<close>

definition first_chapter_of :: "chapter_entry \<Rightarrow> chapter_number" where
  "first_chapter_of ch =
     (case chapter_attr ch of
        None \<Rightarrow> IntNum 1
      | Some a \<Rightarrow> if a = [] then IntNum 1 else StrNum a)"

definition search_tail :: "env \<Rightarrow> chapter_entry list option \<Rightarrow> string \<Rightarrow> tracker \<Rightarrow> string
    \<Rightarrow> string \<Rightarrow> int set \<Rightarrow> stdin_item list
    \<Rightarrow> py_exn option \<times> tracker \<times> event list \<times> int set \<times> stdin_item list" where
  "search_tail e feed now t manga_id ttl files inp =
     (case inp of
        [] \<Rightarrow> (Some EOFError, t, [], files, [])
      | Interrupt # rest \<Rightarrow> (Some KeyboardInterrupt, t, [], files, rest)
      | Line a # rest \<Rightarrow>
          let t1 = (if lower (strip a) = ''y'' then track_manga t manga_id ttl else t)
          in (case rest of
                [] \<Rightarrow> (Some EOFError, t1, [], files, [])
              | Interrupt # rest' \<Rightarrow> (Some KeyboardInterrupt, t1, [], files, rest')
              | Line b # rest' \<Rightarrow>
                  if lower (strip b) \<noteq> ''y'' then (None, t1, [], files, rest')
                  else (case feed of
                          None \<Rightarrow> (None, t1, [], files, rest')
                        | Some [] \<Rightarrow> (None, t1, [], files, rest')
                        | Some (ch # chs) \<Rightarrow>
                            let first_chapter = first_chapter_of ch
                            in (case read_chapter_enhanced e manga_id first_chapter 5 files rest' of
                                  (Inl x, evs, files', inp') \<Rightarrow> (Some x, t1, evs, files', inp')
                                | (Inr b, evs, files', inp') \<Rightarrow>
                                    (None, mark_chapter_read now t1 manga_id first_chapter,
                                     evs, files', inp')))))"

section \<open>Example worlds\<close>

text \<open>
  A catalog with two chapters, the first without a number, and two pages; every
  request and every display succeeds. \<open>example_str_float\<close> is \<open>str(float(s))\<close>
  on the two numerals the examples use.
\<close>

definition example_str_float :: "string \<Rightarrow> py_exn + string" where
  "example_str_float s =
     (if s = ''1'' then Inr ''1.0'' else if s = ''2'' then Inr ''2.0'' else Inl ValueError)"

definition example_chapters :: "chapter_entry list" where
  "example_chapters =
     [\<lparr>chapter_id = ''c0'', chapter_attr = None\<rparr>,
      \<lparr>chapter_id = ''c1'', chapter_attr = Some ''1''\<rparr>]"

definition example_at_home :: at_home where
  "example_at_home =
     \<lparr>baseUrl = Some ''u'',
      chapter_obj = Some \<lparr>hash = Some ''h'', data = Some [''a'', ''b'']\<rparr>\<rparr>"

definition example_env :: env where
  "example_env =
     \<lparr>get_chapters = (\<lambda>m. Some example_chapters),
      str_float = example_str_float,
      at_home_server = (\<lambda>c. Json example_at_home),
      fetch_image = (\<lambda>n url. None),
      display_image_native = (\<lambda>n k. True),
      image_save = (\<lambda>n k. None),
      display_image_terminal = (\<lambda>n k. True),
      display_image_browser = (\<lambda>n url. True),
      show_ascii = (\<lambda>n k. None),
      os_remove = (\<lambda>k. None)\<rparr>"

definition example_pages :: "string list" where
  "example_pages = [''u/data/h/a'', ''u/data/h/b'']"

definition empty_tracker :: tracker where
  "empty_tracker =
     \<lparr>tdata = \<lparr>tracked_manga = Map.empty, last_check = None\<rparr>, data_file = None\<rparr>"

text \<open>The same world with the at-home server out of reach.\<close>

definition offline_env :: env where
  "offline_env = example_env\<lparr>at_home_server := (\<lambda>c. Failed)\<rparr>"

text \<open>Some attempt of the list failed.\<close>

definition has_failure :: "event list \<Rightarrow> bool" where
  "has_failure evs = list_ex (\<lambda>ev. is_attempt ev \<and> \<not> displayed ev) evs"

text \<open>
  Three more worlds: one with three pages; one where the system viewer fails in the first
  iteration and works afterwards; one where no page can be fetched.
\<close>

definition three_env :: env where
  "three_env = example_env\<lparr>at_home_server := (\<lambda>c. Json
     \<lparr>baseUrl = Some ''u'',
      chapter_obj = Some \<lparr>hash = Some ''h'', data = Some [''a'', ''b'', ''c'']\<rparr>\<rparr>)\<rparr>"

definition three_pages :: "string list" where
  "three_pages = [''u/data/h/a'', ''u/data/h/b'', ''u/data/h/c'']"

definition flaky_env :: env where
  "flaky_env = example_env\<lparr>display_image_terminal := (\<lambda>n k. n \<noteq> 0)\<rparr>"

definition broken_env :: env where
  "broken_env = example_env\<lparr>fetch_image := (\<lambda>n url. Some RequestException)\<rparr>"

section \<open>Properties of the palette index\<close>

lemma length_ascii_chars: "length ascii_chars = 67"
  by (simp add: ascii_chars_def)

lemma char_index_table: "list_all (\<lambda>p. char_index p = p * 66 div 255) [0..255]"
  by code_simp

lemma char_index_exact: "0 \<le> p \<Longrightarrow> p \<le> 255 \<Longrightarrow> char_index p = p * 66 div 255"
  using char_index_table by (simp add: list_all_iff)

lemma uint8_range: "0 \<le> uint (p :: 8 word) \<and> uint p \<le> 255"
  using uint_lt2p [of p] by simp

lemma char_index_uint: "char_index (uint (p :: 8 word)) = uint p * 66 div 255"
  using uint8_range [of p] by (simp add: char_index_exact)

lemma scaled_range: "0 \<le> uint (p :: 8 word) * 66 div 255 \<and> uint p * 66 div 255 < 67"
proof -
  have ge: "0 \<le> uint p" and le: "uint p \<le> 255"
    using uint8_range [of p] by simp_all
  have "uint p * 66 div 255 \<le> 255 * 66 div 255"
    by (rule zdiv_mono1) (use le in simp_all)
  also have "\<dots> = 66" by simp
  finally have u: "uint p * 66 div 255 \<le> 66" .
  have l: "0 \<le> uint p * 66 div 255"
    by (rule pos_imp_zdiv_nonneg_iff [THEN iffD2]) (use ge in simp_all)
  from u l show ?thesis by simp
qed

lemma getitem_pixel:
  "getitem ascii_chars (char_index (uint (p :: 8 word))) = Inr (pixel_char p)"
proof -
  have "0 \<le> char_index (uint p) \<and> char_index (uint p) < 67"
    using scaled_range [of p] by (simp only: char_index_uint)
  then show ?thesis
    by (simp add: getitem_def length_ascii_chars pixel_char_def Let_def char_index_uint)
qed

lemma newline_notin_palette: "newline \<notin> set ascii_chars"
  by (simp add: ascii_chars_def newline_def)

lemma pixel_char_not_newline: "pixel_char p \<noteq> newline"
proof -
  have "0 \<le> uint p * 66 div 255 \<and> uint p * 66 div 255 < 67"
    by (rule scaled_range)
  then have "nat (uint p * 66 div 255) < length ascii_chars"
    by (simp only: length_ascii_chars) linarith
  then have "pixel_char p \<in> set ascii_chars"
    unfolding pixel_char_def by (rule nth_mem)
  with newline_notin_palette show ?thesis by auto
qed

lemma char_index_mono:
  fixes p q :: "8 word"
  assumes "p \<le> q"
  shows "char_index (uint p) \<le> char_index (uint q)"
proof -
  have "uint p \<le> uint q" using assms by (simp add: word_le_def)
  then have "uint p * 66 div 255 \<le> uint q * 66 div 255"
    by (intro zdiv_mono1) simp_all
  then show ?thesis by (simp only: char_index_uint)
qed

text \<open>
  C7, as the code has it: the palette has 67 characters (not 69); the index computed in
  double precision is the floor of \<open>luminance * (paletteSize - 1) / 255\<close>; it is 0
  for luminance 0 and \<open>paletteSize - 1\<close> for luminance 255, and it does not decrease
  when the luminance grows.
\<close>

theorem palette_index_monotone:
  fixes p q :: "8 word"
  assumes "p \<le> q"
  shows "length ascii_chars = 67 \<and>
         char_index (uint p) = uint p * (int (length ascii_chars) - 1) div 255 \<and>
         char_index (uint (0 :: 8 word)) = 0 \<and>
         char_index (uint (255 :: 8 word)) = int (length ascii_chars) - 1 \<and>
         char_index (uint p) \<le> char_index (uint q)"
proof -
  have "char_index (uint (0 :: 8 word)) = 0"
    using char_index_exact [of 0] by simp
  moreover have "char_index (uint (255 :: 8 word)) = int (length ascii_chars) - 1"
    using char_index_exact [of 255] by (simp add: length_ascii_chars)
  moreover have "char_index (uint p) = uint p * (int (length ascii_chars) - 1) div 255"
    by (simp add: char_index_uint length_ascii_chars)
  ultimately show ?thesis
    using char_index_mono [OF assms] length_ascii_chars by blast
qed

theorem palette_index_monotone_witness:
  "(10 :: 8 word) \<le> 200 \<and> length ascii_chars = 67 \<and>
   char_index (uint (10 :: 8 word)) = 2 \<and>
   char_index (uint (0 :: 8 word)) = 0 \<and>
   char_index (uint (255 :: 8 word)) = 66 \<and>
   char_index (uint (10 :: 8 word)) \<le> char_index (uint (200 :: 8 word))"
proof -
  have h: "(10 :: 8 word) \<le> 200" by simp
  show ?thesis
    using h palette_index_monotone [OF h] char_index_exact [of 10] by simp
qed

text \<open>C7 as stated fails: the palette does not have 69 characters.\<close>

theorem palette_size_counterexample: "length ascii_chars \<noteq> 69"
  by (simp add: ascii_chars_def)

section \<open>Properties of the rendered text\<close>

lemma ascii_loop_step:
  "w \<noteq> 0 \<Longrightarrow> ascii_loop w ((i, p) # rest) acc =
     ascii_loop w rest (acc @ (if int i mod w = 0 \<and> i \<noteq> 0 then [newline] else [])
        @ [pixel_char p, pixel_char p])"
  by (simp add: getitem_pixel)

lemma ascii_loop_concat:
  "w \<noteq> 0 \<Longrightarrow> ascii_loop w ips acc = Inr (acc @ concat (map (pixel_text w) ips))"
proof (induction ips arbitrary: acc)
  case Nil
  then show ?case by simp
next
  case (Cons ip ips)
  obtain i p where ip: "ip = (i, p)" by (cases ip)
  have pt: "pixel_text w (i, p) =
      (if int i mod w = 0 \<and> i \<noteq> 0 then [newline] else []) @ [pixel_char p, pixel_char p]"
    by (simp add: pixel_text_def)
  show ?case
    unfolding ip
    by (subst ascii_loop_step [OF Cons.prems])
       (simp only: Cons.IH [OF Cons.prems] pt list.map concat.simps append_assoc)
qed

lemma row_concat:
  "0 < w \<Longrightarrow> k mod w + length row \<le> w \<Longrightarrow>
   concat (map (pixel_text (int w)) (enumerate k row)) =
     (if row \<noteq> [] \<and> k mod w = 0 \<and> k \<noteq> 0 then [newline] else []) @ row_text row"
proof (induction row arbitrary: k)
  case Nil
  then show ?case by (simp add: row_text_def)
next
  case (Cons p row)
  have m: "int k mod int w = 0 \<longleftrightarrow> k mod w = 0"
    by (metis of_nat_mod of_nat_eq_0_iff)
  show ?case
  proof (cases "row = []")
    case True
    then show ?thesis by (simp add: pixel_text_def row_text_def m)
  next
    case False
    with Cons.prems have small: "Suc (k mod w) < w" by (cases row) auto
    then have sm: "Suc k mod w = Suc (k mod w)"
      by (simp add: mod_Suc)
    have "Suc k mod w + length row \<le> w"
      using Cons.prems sm by simp
    from Cons.IH [OF Cons.prems(1) this] sm False
    show ?thesis
      by (simp add: pixel_text_def row_text_def m)
  qed
qed

lemma rows_concat:
  "0 < w \<Longrightarrow> length ps = w * h \<Longrightarrow> 0 < j \<Longrightarrow>
   concat (map (pixel_text (int w)) (enumerate (j * w) ps)) =
     concat (map (\<lambda>r. newline # row_text r) (rows w h ps))"
proof (induction h arbitrary: j ps)
  case 0
  then show ?case by simp
next
  case (Suc h)
  let ?r = "take w ps" and ?rest = "drop w ps"
  have lr: "length ?r = w" using Suc.prems by simp
  have lrest: "length ?rest = w * h" using Suc.prems by simp
  have ps: "ps = ?r @ ?rest" by simp
  have "enumerate (j * w) ps = enumerate (j * w) ?r @ enumerate (Suc j * w) ?rest"
    by (subst ps, subst enumerate_append_eq) (simp only: lr mult_Suc add.commute)
  moreover have "concat (map (pixel_text (int w)) (enumerate (j * w) ?r)) = newline # row_text ?r"
    using row_concat [of w "j * w" ?r] Suc.prems lr by auto
  moreover have "concat (map (pixel_text (int w)) (enumerate (Suc j * w) ?rest)) =
      concat (map (\<lambda>r. newline # row_text r) (rows w h ?rest))"
    by (rule Suc.IH [OF Suc.prems(1) lrest]) simp
  ultimately show ?case by simp
qed

lemma image_concat:
  assumes "0 < w" "length ps = w * Suc h"
  shows "concat (map (pixel_text (int w)) (enumerate 0 ps)) =
     row_text (take w ps) @ concat (map (\<lambda>r. newline # row_text r) (rows w h (drop w ps)))"
proof -
  let ?r = "take w ps" and ?rest = "drop w ps"
  have lr: "length ?r = w" using assms by simp
  have lrest: "length ?rest = w * h" using assms by simp
  have ps: "ps = ?r @ ?rest" by simp
  have "enumerate 0 ps = enumerate 0 ?r @ enumerate (1 * w) ?rest"
    by (subst ps, subst enumerate_append_eq) (simp only: lr mult_1 add_0)
  moreover have "concat (map (pixel_text (int w)) (enumerate 0 ?r)) = row_text ?r"
    using row_concat [of w 0 ?r] assms lr by auto
  moreover have "concat (map (pixel_text (int w)) (enumerate (1 * w) ?rest)) =
      concat (map (\<lambda>r. newline # row_text r) (rows w h ?rest))"
    by (rule rows_concat [OF assms(1) lrest]) simp
  ultimately show ?thesis by simp
qed

lemma row_text_no_newline: "newline \<notin> set (row_text row)"
  by (induction row) (auto simp: row_text_def pixel_char_not_newline [symmetric])

lemma length_row_text: "length (row_text row) = 2 * length row"
  by (induction row) (auto simp: row_text_def)

lemma split_on_plain: "sep \<notin> set a \<Longrightarrow> split_on sep a = [a]"
  by (induction a) auto

lemma split_on_append: "sep \<notin> set a \<Longrightarrow> split_on sep (a @ sep # b) = a # split_on sep b"
  by (induction a) auto

lemma split_on_rows:
  "newline \<notin> set t \<Longrightarrow>
   split_on newline (t @ concat (map (\<lambda>r. newline # row_text r) rs)) = t # map row_text rs"
proof (induction rs arbitrary: t)
  case Nil
  then show ?case by (simp add: split_on_plain)
next
  case (Cons r rs)
  have "split_on newline (t @ newline # (row_text r @ concat (map (\<lambda>r. newline # row_text r) rs)))
      = t # split_on newline (row_text r @ concat (map (\<lambda>r. newline # row_text r) rs))"
    using Cons.prems by (rule split_on_append)
  also have "\<dots> = t # row_text r # map row_text rs"
    using Cons.IH [OF row_text_no_newline] by simp
  finally show ?case by simp
qed

lemma count_newline_rows:
  "newline \<notin> set t \<Longrightarrow>
   count_list (t @ concat (map (\<lambda>r. newline # row_text r) rs)) newline = length rs"
proof (induction rs arbitrary: t)
  case Nil
  then show ?case by (simp add: count_list_0_iff)
next
  case (Cons r rs)
  have "count_list (row_text r @ concat (map (\<lambda>r. newline # row_text r) rs)) newline = length rs"
    by (rule Cons.IH [OF row_text_no_newline])
  with Cons.prems show ?case by (simp add: count_list_0_iff)
qed

lemma length_rows: "length (rows w h ps) = h"
  by (induction h arbitrary: ps) auto

lemma rows_lengths: "length ps = w * h \<Longrightarrow> r \<in> set (rows w h ps) \<Longrightarrow> length r = w"
proof (induction h arbitrary: ps)
  case 0
  then show ?case by simp
next
  case (Suc h)
  have "length (drop w ps) = w * h" using Suc.prems(1) by simp
  from Suc.IH [OF this] Suc.prems show ?case by auto
qed

lemma image_text:
  assumes "0 < w" "length pixels = w * Suc h"
  shows "image_to_ascii_enhanced (int w) pixels =
     Inr (row_text (take w pixels) @
          concat (map (\<lambda>r. newline # row_text r) (rows w h (drop w pixels))))"
  using assms by (simp add: image_to_ascii_enhanced_def ascii_loop_concat image_concat)

text \<open>
  C6, as the code has it: for a resized image of \<open>w > 0\<close> by \<open>h > 0\<close> pixels the
  text has exactly \<open>h - 1\<close> line breaks (one between two rows, none after the last),
  that is \<open>h\<close> lines, and every line has \<open>2 * w\<close> characters.
\<close>

theorem ascii_text_shape:
  assumes "0 < w" "0 < h" "length pixels = w * h"
  shows "\<exists>s. image_to_ascii_enhanced (int w) pixels = Inr s \<and>
           count_list s newline = h - 1 \<and>
           length (split_on newline s) = h \<and>
           (\<forall>l \<in> set (split_on newline s). length l = 2 * w)"
proof -
  obtain h' where h: "h = Suc h'" using assms(2) by (cases h) auto
  let ?t = "row_text (take w pixels)"
  let ?rs = "rows w h' (drop w pixels)"
  let ?s = "?t @ concat (map (\<lambda>r. newline # row_text r) ?rs)"
  have len: "length pixels = w * Suc h'" using assms(3) h by simp
  have s: "image_to_ascii_enhanced (int w) pixels = Inr ?s"
    by (rule image_text [OF assms(1) len])
  have cnt: "count_list ?s newline = h - 1"
    by (simp only: count_newline_rows [OF row_text_no_newline] length_rows h diff_Suc_1)
  have spl: "split_on newline ?s = ?t # map row_text ?rs"
    by (rule split_on_rows [OF row_text_no_newline])
  have ldrop: "length (drop w pixels) = w * h'" using len by simp
  have l0: "length ?t = 2 * w" using len by (simp add: length_row_text)
  have ls: "\<forall>l \<in> set (map row_text ?rs). length l = 2 * w"
    using rows_lengths [OF ldrop] by (auto simp: length_row_text)
  have "length (split_on newline ?s) = h"
    by (simp only: spl) (simp add: length_rows h)
  moreover have "\<forall>l \<in> set (split_on newline ?s). length l = 2 * w"
    using l0 ls by (simp only: spl) simp
  ultimately show ?thesis using s cnt by blast
qed

theorem ascii_text_shape_witness:
  "\<exists>s. image_to_ascii_enhanced 2 [0, 255, 128, 7] = Inr s \<and>
       count_list s newline = 1 \<and>
       length (split_on newline s) = 2 \<and>
       (\<forall>l \<in> set (split_on newline s). length l = 4)"
  using ascii_text_shape [of 2 2 "[0, 255, 128, 7]"] by simp

text \<open>
  C6 as stated fails: the text of an image of one pixel (one row) has no line break,
  not one.
\<close>

theorem ascii_line_breaks_counterexample:
  "image_to_ascii_enhanced 1 [0] = Inr ''  '' \<and> count_list ''  '' newline \<noteq> 1"
  using image_text [of 1 "[0]" 0]
  by (simp add: row_text_def pixel_char_def ascii_chars_def newline_def)

section \<open>The progress store and the start of a session\<close>

text \<open>
  C9: \<open>mark_chapter_read\<close> for a manga that is not tracked changes nothing: the data
  in memory and the contents of the file are the ones before, and the model has no
  branch in which the method raises.
\<close>

theorem mark_untracked_noop:
  "tracked_manga (tdata t) manga_id = None \<Longrightarrow>
     mark_chapter_read now t manga_id chapter_number = t"
  by (simp add: mark_chapter_read_def)

theorem mark_untracked_noop_witness:
  "tracked_manga (tdata empty_tracker) ''m'' = None \<and>
   mark_chapter_read ''t0'' empty_tracker ''m'' (IntNum 1) = empty_tracker"
proof -
  have h: "tracked_manga (tdata empty_tracker) ''m'' = None"
    by (simp add: empty_tracker_def)
  show ?thesis using h mark_untracked_noop [OF h] by simp
qed

lemma open_example: "open_chapter example_env ''m'' (IntNum 1) = Inr (Some example_pages)"
  by code_simp

text \<open>
  C10: when the prompt for the display method is reached and ends with the end of the
  input or an interrupt, \<open>read_chapter_enhanced\<close> returns \<open>False\<close>; no page is
  fetched or displayed (there is no event) and the temporary files are the ones before.
\<close>

theorem prompt_interrupted:
  assumes "open_chapter e manga_id chapter_number = Inr (Some pages)"
    and "inp = [] \<or> (\<exists>rest. inp = Interrupt # rest)"
  shows "read_chapter_enhanced e manga_id chapter_number max_pages files inp =
           (Inr False, [], files, tl inp)"
  using assms by (auto simp: read_chapter_enhanced_def)

theorem prompt_interrupted_witness:
  "open_chapter example_env ''m'' (IntNum 1) = Inr (Some example_pages) \<and>
   read_chapter_enhanced example_env ''m'' (IntNum 1) 5 {} [Interrupt, Line ''q''] =
     (Inr False, [], {}, [Line ''q''])"
  using open_example prompt_interrupted [OF open_example, of "[Interrupt, Line ''q'']" 5 "{}"]
  by simp

text \<open>
  C4 does not hold of the code: at index 0 the input \<open>b\<close> is not a step back, so it
  takes the last branch and the walker goes on to index 1. In the session below, with
  two pages and the ASCII display, the page fetched after \<open>b\<close> is the one at index 1.
\<close>

theorem back_on_first_page_advances:
  "navigate (lower (strip ''b'')) 0 = Goto 1 \<and>
   page_loop example_env example_pages 5 0 0 ''4'' {} [Line ''b'', Line ''q''] =
     (None, [Fetch 0 ''u/data/h/a'', Ascii 1, AwaitInput 0,
             Fetch 1 ''u/data/h/b'', Ascii 2, AwaitInput 1], {}, [])"
  by code_simp

text \<open>
  C8 does not hold of the code: the attribute is compared as \<open>str(float(attribute))\<close>,
  which is \<open>1.0\<close> for the chapter numbered \<open>1\<close>, with \<open>str\<close> of the request,
  which is \<open>1\<close> for the int \<open>1\<close> and for the string \<open>1\<close> that \<open>search\<close>
  passes. The chapter whose number equals the request is not found and the first chapter
  of the list is taken.
\<close>

theorem request_never_matches:
  assumes "sf ''1'' = Inr ''1.0''"
  shows "select_chapter sf \<lparr>chapter_id = ''c0'', chapter_attr = None\<rparr>
           [\<lparr>chapter_id = ''c1'', chapter_attr = Some ''1''\<rparr>] (IntNum 1) =
         Inr \<lparr>chapter_id = ''c0'', chapter_attr = None\<rparr> \<and>
         select_chapter sf \<lparr>chapter_id = ''c0'', chapter_attr = None\<rparr>
           [\<lparr>chapter_id = ''c1'', chapter_attr = Some ''1''\<rparr>] (StrNum ''1'') =
         Inr \<lparr>chapter_id = ''c0'', chapter_attr = None\<rparr>"
proof -
  have "str (IntNum 1) = ''1''" by code_simp
  then show ?thesis using assms by (simp add: select_chapter_def)
qed

theorem request_never_matches_witness:
  "example_str_float ''1'' = Inr ''1.0'' \<and>
   select_chapter example_str_float \<lparr>chapter_id = ''c0'', chapter_attr = None\<rparr>
           [\<lparr>chapter_id = ''c1'', chapter_attr = Some ''1''\<rparr>] (IntNum 1) =
         Inr \<lparr>chapter_id = ''c0'', chapter_attr = None\<rparr>"
proof -
  have h: "example_str_float ''1'' = Inr ''1.0''" by (simp add: example_str_float_def)
  show ?thesis using h request_never_matches [of example_str_float, OF h] by simp
qed

text \<open>
  C3 does not hold of the code: \<open>search\<close> calls \<open>mark_chapter_read\<close> after
  \<open>read_chapter_enhanced\<close> whatever it returned. With the at-home server out of
  reach the session returns \<open>False\<close> and shows no page, and the chapter is recorded
  as read for the manga the user has just chosen to track.
\<close>

theorem aborted_session_marked_read:
  "read_chapter_enhanced offline_env ''m'' (IntNum 1) 5 {} [] = (Inr False, [], {}, []) \<and>
   fst (search_tail offline_env (Some example_chapters) ''t0'' empty_tracker ''m'' ''T'' {}
          [Line ''y'', Line ''y'']) = None \<and>
   map_option read_chapters
     (tracked_manga (tdata (fst (snd (search_tail offline_env (Some example_chapters) ''t0''
          empty_tracker ''m'' ''T'' {} [Line ''y'', Line ''y''])))) ''m'') = Some [IntNum 1] \<and>
   fst (snd (snd (search_tail offline_env (Some example_chapters) ''t0''
          empty_tracker ''m'' ''T'' {} [Line ''y'', Line ''y'']))) = []"
  by code_simp

section \<open>Properties of the page walker\<close>

lemma display_page_cases:
  assumes "display_page e n i url dc files = (r, evs, files')"
  shows "(\<forall>ev \<in> set evs. index_in_range b ev) \<and>
         no_attempt_after_failure evs \<and>
         (has_failure evs \<longrightarrow> (\<forall>c. r = Inr c \<longrightarrow> c = ''4'')) \<and>
         (dc = ''4'' \<longrightarrow> \<not> list_ex is_attempt evs \<and> (\<forall>c. r = Inr c \<longrightarrow> c = ''4'')) \<and>
         (\<forall>x. r = Inl x \<longrightarrow> (\<exists>k. image_save e n k = Some x \<or> show_ascii e n k = Some x))"
  using assms
  by (auto simp: display_page_def Let_def has_failure_def
           split: if_splits option.splits prod.splits)

lemma naf_no_attempt: "\<not> list_ex is_attempt evs \<Longrightarrow> no_attempt_after_failure evs"
  by (induction evs rule: no_attempt_after_failure.induct) auto

lemma naf_append:
  "no_attempt_after_failure (a @ b) \<longleftrightarrow>
     (if has_failure a then no_attempt_after_failure a \<and> \<not> list_ex is_attempt b
      else no_attempt_after_failure b)"
  by (induction a rule: no_attempt_after_failure.induct) (auto simp: has_failure_def)

lemma naf_Cons_other:
  "\<not> is_attempt ev \<Longrightarrow> no_attempt_after_failure (ev # evs) = no_attempt_after_failure evs"
  by (cases ev) auto

lemma has_failure_simps [simp]:
  "has_failure [] = False"
  "has_failure (a @ b) = (has_failure a \<or> has_failure b)"
  "\<not> is_attempt ev \<Longrightarrow> has_failure (ev # evs) = has_failure evs"
  by (auto simp: has_failure_def)

lemma navigate_nonneg: "navigate u i = Goto j \<Longrightarrow> 0 \<le> i \<Longrightarrow> 0 \<le> j"
  by (auto simp: navigate_def split: if_splits)

lemma getitem_in_range: "0 \<le> i \<Longrightarrow> i < int (length xs) \<Longrightarrow> getitem xs i = Inr (xs ! nat i)"
  by (simp add: getitem_def)

lemma handler_None: "x \<noteq> KeyboardInterrupt \<Longrightarrow> handler x = None"
  by (simp add: handler_def is_Exception_def)

lemma page_step_cases:
  assumes "page_step e pages n i dc files inp = (st, evs, files', inp')"
  shows "(0 \<le> i \<and> i < b \<longrightarrow> (\<forall>ev \<in> set evs. index_in_range b ev)) \<and>
         no_attempt_after_failure evs \<and>
         (has_failure evs \<longrightarrow> (\<forall>j c. st = Next j c \<longrightarrow> c = ''4'')) \<and>
         (dc = ''4'' \<longrightarrow> \<not> list_ex is_attempt evs \<and> (\<forall>j c. st = Next j c \<longrightarrow> c = ''4'')) \<and>
         (\<forall>j c. st = Next j c \<longrightarrow> 0 \<le> i \<longrightarrow> 0 \<le> j) \<and>
         set inp' \<subseteq> set inp"
proof (cases "getitem pages i")
  case (Inl x)
  with assms show ?thesis by (auto simp: page_step_def)
next
  case (Inr url)
  show ?thesis
  proof (cases "fetch_image e n url")
    case (Some x)
    with Inr assms show ?thesis by (auto simp: page_step_def)
  next
    case None
    obtain r devs dfiles where d: "display_page e n i url dc files = (r, devs, dfiles)"
      by (cases "display_page e n i url dc files") auto
    note dc = display_page_cases [OF d, of b]
    show ?thesis
    proof (cases r)
      case (Inl x)
      with Inr None d dc assms show ?thesis
        by (auto simp: page_step_def naf_Cons_other)
    next
      case r: (Inr c)
      have naf: "no_attempt_after_failure (Fetch i url # devs @ [AwaitInput i])"
        using dc by (simp add: naf_Cons_other naf_append)
      from Inr None d r dc naf assms show ?thesis
        by (auto simp: page_step_def list_ex_iff dest: navigate_nonneg
                 split: list.splits stdin_item.splits nav.splits)
    qed
  qed
qed



lemma page_loop_done:
  "\<not> i < min mp (int (length pages)) \<Longrightarrow> page_loop e pages mp n i dc files inp = (None, [], files, inp)"
  by (simp add: page_loop.simps)

lemma page_loop_stop:
  "i < min mp (int (length pages)) \<Longrightarrow>
   page_step e pages n i dc files inp = (Stop r, evs, files', inp') \<Longrightarrow>
   page_loop e pages mp n i dc files inp = (r, evs, files', inp')"
  by (simp add: page_loop.simps)

lemma page_loop_next:
  "i < min mp (int (length pages)) \<Longrightarrow>
   page_step e pages n i dc files inp = (Next j c, evs, files', inp') \<Longrightarrow>
   fst (page_loop e pages mp n i dc files inp) = fst (page_loop e pages mp (Suc n) j c files' inp') \<and>
   fst (snd (page_loop e pages mp n i dc files inp)) =
     evs @ fst (snd (page_loop e pages mp (Suc n) j c files' inp'))"
  by (simp add: page_loop.simps split: prod.splits)

lemma page_loop_induct [case_names loop]:
  assumes "\<And>e pages mp n i dc files inp.
     (\<And>j c evs files' inp'. i < min mp (int (length pages)) \<Longrightarrow>
        page_step e pages n i dc files inp = (Next j c, evs, files', inp') \<Longrightarrow>
        P e pages mp (Suc n) j c files' inp') \<Longrightarrow>
     P e pages mp n i dc files inp"
  shows "P e pages mp n i dc files inp"
proof (induction e pages mp n i dc files inp rule: page_loop.induct)
  case (1 e pages mp n i dc files inp)
  show ?case
  proof (rule assms)
    fix j c evs files' inp'
    assume "i < min mp (int (length pages))"
      and "page_step e pages n i dc files inp = (Next j c, evs, files', inp')"
    then show "P e pages mp (Suc n) j c files' inp'"
      using "1.IH" [of "Next j c" "(evs, files', inp')" j c evs "(files', inp')" files' inp']
      by simp
  qed
qed

lemma loop_index_in_range:
  "0 \<le> i \<Longrightarrow>
   \<forall>ev \<in> set (fst (snd (page_loop e pages mp n i dc files inp))).
      index_in_range (min mp (int (length pages))) ev"
proof (induction e pages mp n i dc files inp rule: page_loop_induct)
  case (loop e pages mp n i dc files inp)
  show ?case
  proof (cases "i < min mp (int (length pages))")
    case False
    then show ?thesis by (simp add: page_loop_done)
  next
    case True
    obtain st evs files' inp' where s: "page_step e pages n i dc files inp = (st, evs, files', inp')"
      by (cases "page_step e pages n i dc files inp") auto
    note sc = page_step_cases [OF s, of "min mp (int (length pages))"]
    show ?thesis
    proof (cases st)
      case (Stop r)
      with True s sc loop.prems show ?thesis by (simp add: page_loop_stop)
    next
      case (Next j c)
      with sc loop.prems have "0 \<le> j" by simp
      from loop.IH [OF True s [unfolded Next] this] page_loop_next [OF True s [unfolded Next]]
        sc True loop.prems
      show ?thesis by auto
    qed
  qed
qed

lemma loop_ascii_no_attempt:
  "\<not> list_ex is_attempt (fst (snd (page_loop e pages mp n i ''4'' files inp)))"
proof (induction e pages mp n i "''4''" files inp rule: page_loop_induct)
  case (loop e pages mp n i files inp)
  show ?case
  proof (cases "i < min mp (int (length pages))")
    case False
    then show ?thesis by (simp add: page_loop_done)
  next
    case True
    obtain st evs files' inp' where s: "page_step e pages n i ''4'' files inp = (st, evs, files', inp')"
      by (cases "page_step e pages n i ''4'' files inp") auto
    note sc = page_step_cases [OF s, of 0]
    show ?thesis
    proof (cases st)
      case (Stop r)
      with True s sc show ?thesis by (simp add: page_loop_stop)
    next
      case (Next j c)
      with sc have c: "c = ''4''" by simp
      from loop.hyps [OF True s [unfolded Next c]] page_loop_next [OF True s [unfolded Next c]] sc
      show ?thesis by (auto simp: list_ex_iff)
    qed
  qed
qed

lemma loop_no_attempt_after_failure:
  "no_attempt_after_failure (fst (snd (page_loop e pages mp n i dc files inp)))"
proof (induction e pages mp n i dc files inp rule: page_loop_induct)
  case (loop e pages mp n i dc files inp)
  show ?case
  proof (cases "i < min mp (int (length pages))")
    case False
    then show ?thesis by (simp add: page_loop_done)
  next
    case True
    obtain st evs files' inp' where s: "page_step e pages n i dc files inp = (st, evs, files', inp')"
      by (cases "page_step e pages n i dc files inp") auto
    note sc = page_step_cases [OF s, of 0]
    show ?thesis
    proof (cases st)
      case (Stop r)
      with True s sc show ?thesis by (simp add: page_loop_stop)
    next
      case (Next j c)
      note nx = page_loop_next [OF True s [unfolded Next]]
      show ?thesis
      proof (cases "has_failure evs")
        case True
        with sc Next have "c = ''4''" by simp
        with True sc nx loop_ascii_no_attempt [of e pages mp "Suc n" j files' inp']
        show ?thesis by (simp add: naf_append)
      next
        case False
        with loop.IH [OF True s [unfolded Next]] nx show ?thesis by (simp add: naf_append)
      qed
    qed
  qed
qed

lemma page_step_stop_cases:
  assumes "page_step e pages n i dc files inp = (Stop r, evs, files', inp')"
    and "\<And>n u. fetch_image e n u \<noteq> Some KeyboardInterrupt"
    and "\<And>n k. image_save e n k \<noteq> Some KeyboardInterrupt"
    and "\<And>n k. show_ascii e n k \<noteq> Some KeyboardInterrupt"
    and "Interrupt \<notin> set inp"
  shows "r = None"
proof (cases "getitem pages i")
  case (Inl x)
  then have "x = IndexError" by (auto simp: getitem_def split: if_splits)
  with Inl assms(1) show ?thesis by (auto simp: page_step_def handler_None)
next
  case (Inr url)
  show ?thesis
  proof (cases "fetch_image e n url")
    case (Some x)
    with assms(2) [of n url] have "x \<noteq> KeyboardInterrupt" by auto
    with Inr Some assms(1) show ?thesis by (auto simp: page_step_def handler_None)
  next
    case None
    obtain r' devs dfiles where d: "display_page e n i url dc files = (r', devs, dfiles)"
      by (cases "display_page e n i url dc files") auto
    note dc = display_page_cases [OF d, of 0]
    show ?thesis
    proof (cases r')
      case (Inl x)
      with dc assms(3,4) have "x \<noteq> KeyboardInterrupt" by metis
      with Inr None d Inl assms(1) show ?thesis by (auto simp: page_step_def handler_None)
    next
      case r: (Inr c)
      from Inr None d r assms(1,5) show ?thesis
        by (auto simp: page_step_def handler_None
                 split: list.splits stdin_item.splits nav.splits)
    qed
  qed
qed

lemma loop_no_escape:
  assumes "\<And>n u. fetch_image e n u \<noteq> Some KeyboardInterrupt"
    and "\<And>n k. image_save e n k \<noteq> Some KeyboardInterrupt"
    and "\<And>n k. show_ascii e n k \<noteq> Some KeyboardInterrupt"
  shows "Interrupt \<notin> set inp \<Longrightarrow> fst (page_loop e pages mp n i dc files inp) = None"
  using assms
proof (induction e pages mp n i dc files inp rule: page_loop_induct)
  case (loop e pages mp n i dc files inp)
  show ?case
  proof (cases "i < min mp (int (length pages))")
    case False
    then show ?thesis by (simp add: page_loop_done)
  next
    case True
    obtain st evs files' inp' where s: "page_step e pages n i dc files inp = (st, evs, files', inp')"
      by (cases "page_step e pages n i dc files inp") auto
    note sc = page_step_cases [OF s, of 0]
    show ?thesis
    proof (cases st)
      case (Stop r)
      from page_step_stop_cases [OF s [unfolded Stop] loop.prems(2,3,4,1)]
      show ?thesis using True s Stop by (simp add: page_loop_stop)
    next
      case (Next j c)
      from sc loop.prems(1) have "Interrupt \<notin> set inp'" by auto
      from loop.IH [OF True s [unfolded Next] this loop.prems(2,3,4)]
        page_loop_next [OF True s [unfolded Next]]
      show ?thesis by simp
    qed
  qed
qed

lemma display_page_ascii:
  assumes "display_page e n i url dc files = (r, devs, f)"
  shows "(has_failure devs \<longrightarrow>
            (case r of
               Inr c \<Rightarrow> ascii_after_failure (devs @ AwaitInput i # rest) = ascii_before_input rest
             | Inl x \<Rightarrow> ascii_after_failure (devs @ rest) = ascii_before_input rest)) \<and>
         (\<not> has_failure devs \<longrightarrow> ascii_after_failure (devs @ rest) = ascii_after_failure rest) \<and>
         (dc = ''4'' \<longrightarrow>
            (case r of
               Inr c \<Rightarrow> ascii_before_input (devs @ AwaitInput i # rest) = ascii_before_input rest
             | Inl x \<Rightarrow> devs = []))"
  using assms
  by (auto simp: display_page_def Let_def has_failure_def
           split: if_splits option.splits prod.splits)

lemma page_step_ascii:
  assumes "page_step e pages n i dc files inp = (st, evs, files', inp')"
  shows "(has_failure evs \<longrightarrow> ascii_after_failure (evs @ rest) = ascii_before_input rest) \<and>
         (\<not> has_failure evs \<longrightarrow> ascii_after_failure (evs @ rest) = ascii_after_failure rest) \<and>
         (dc = ''4'' \<longrightarrow> ascii_before_input (evs @ rest) = ascii_before_input rest)"
proof (cases "getitem pages i")
  case (Inl x)
  with assms show ?thesis by (auto simp: page_step_def)
next
  case (Inr url)
  show ?thesis
  proof (cases "fetch_image e n url")
    case (Some x)
    with Inr assms show ?thesis by (auto simp: page_step_def)
  next
    case None
    obtain r devs dfiles where d: "display_page e n i url dc files = (r, devs, dfiles)"
      by (cases "display_page e n i url dc files") auto
    note da = display_page_ascii [OF d, of rest]
    show ?thesis
    proof (cases r)
      case (Inl x)
      with Inr None d da assms show ?thesis
        by (auto simp: page_step_def)
    next
      case r: (Inr c)
      have evs: "evs = Fetch i url # devs @ [AwaitInput i]"
        using Inr None d r assms
        by (auto simp: page_step_def split: list.splits stdin_item.splits nav.splits)
      have hf: "has_failure evs = has_failure devs"
        by (simp add: evs)
      note da' = display_page_ascii [OF d, of "AwaitInput i # rest"]
      show ?thesis
        using da da' r by (simp add: hf) (simp add: evs)
    qed
  qed
qed

lemma loop_ascii_only:
  "ascii_before_input (fst (snd (page_loop e pages mp n i ''4'' files inp)) @ rest) =
     ascii_before_input rest"
proof (induction e pages mp n i "''4''" files inp arbitrary: rest rule: page_loop_induct)
  case (loop e pages mp n i files inp)
  show ?case
  proof (cases "i < min mp (int (length pages))")
    case False
    then show ?thesis by (simp add: page_loop_done)
  next
    case True
    obtain st evs files' inp' where s: "page_step e pages n i ''4'' files inp = (st, evs, files', inp')"
      by (cases "page_step e pages n i ''4'' files inp") auto
    note sc = page_step_cases [OF s, of 0]
    show ?thesis
    proof (cases st)
      case (Stop r)
      with True s page_step_ascii [OF s, of rest] show ?thesis by (simp add: page_loop_stop)
    next
      case (Next j c)
      with sc have c: "c = ''4''" by simp
      note nx = page_loop_next [OF True s [unfolded Next c]]
      have "ascii_before_input
              (evs @ (fst (snd (page_loop e pages mp (Suc n) j ''4'' files' inp')) @ rest)) =
            ascii_before_input (fst (snd (page_loop e pages mp (Suc n) j ''4'' files' inp')) @ rest)"
        using page_step_ascii [OF s] by simp
      also have "\<dots> = ascii_before_input rest"
        by (rule loop.hyps [OF True s [unfolded Next c]])
      finally show ?thesis using nx by simp
    qed
  qed
qed

lemma loop_ascii_after_failure:
  "ascii_before_input rest \<Longrightarrow> ascii_after_failure rest \<Longrightarrow>
   ascii_after_failure (fst (snd (page_loop e pages mp n i dc files inp)) @ rest)"
proof (induction e pages mp n i dc files inp rule: page_loop_induct)
  case (loop e pages mp n i dc files inp)
  show ?case
  proof (cases "i < min mp (int (length pages))")
    case False
    with loop.prems show ?thesis by (simp add: page_loop_done)
  next
    case True
    obtain st evs files' inp' where s: "page_step e pages n i dc files inp = (st, evs, files', inp')"
      by (cases "page_step e pages n i dc files inp") auto
    note sc = page_step_cases [OF s, of 0]
    show ?thesis
    proof (cases st)
      case (Stop r)
      with True s page_step_ascii [OF s, of rest] loop.prems show ?thesis
        by (cases "has_failure evs") (simp_all add: page_loop_stop)
    next
      case (Next j c)
      note nx = page_loop_next [OF True s [unfolded Next]]
      let ?later = "fst (snd (page_loop e pages mp (Suc n) j c files' inp'))"
      have "ascii_after_failure (evs @ (?later @ rest))"
      proof (cases "has_failure evs")
        case True
        with sc Next have "c = ''4''" by simp
        with True page_step_ascii [OF s, of "?later @ rest"] loop.prems(1)
        show ?thesis by (simp add: loop_ascii_only)
      next
        case False
        with page_step_ascii [OF s, of "?later @ rest"]
          loop.IH [OF \<open>i < min mp (int (length pages))\<close> s [unfolded Next] loop.prems]
        show ?thesis by simp
      qed
      with nx show ?thesis by simp
    qed
  qed
qed

lemma cleanup_removes:
  "ev \<in> set (fst (snd (cleanup e ks files))) \<Longrightarrow> \<exists>k. ev = RemoveTemp k"
  by (induction e ks files rule: cleanup.induct)
     (auto split: option.splits prod.splits if_splits)

lemma cleanup_ok: "(\<And>k. os_remove e k = None) \<Longrightarrow> fst (cleanup e ks files) = None"
  by (induction e ks files rule: cleanup.induct) (auto split: prod.splits)

lemma removes_harmless:
  "\<forall>ev \<in> set cevs. \<exists>k. ev = RemoveTemp k \<Longrightarrow>
     \<not> list_ex is_attempt cevs \<and> ascii_before_input cevs \<and> ascii_after_failure cevs \<and>
     (\<forall>ev \<in> set cevs. index_in_range b ev)"
  by (induction cevs) auto

lemma read_events_cases:
  "fst (snd (read_chapter_enhanced e manga_id cn mp files inp)) = [] \<or>
   (\<exists>pages dc rest cevs. open_chapter e manga_id cn = Inr (Some pages) \<and>
      fst (snd (read_chapter_enhanced e manga_id cn mp files inp)) =
         fst (snd (page_loop e pages mp 0 0 dc files rest)) @ cevs \<and>
      (\<forall>ev \<in> set cevs. \<exists>k. ev = RemoveTemp k))"
proof (cases "open_chapter e manga_id cn")
  case (Inl x)
  then show ?thesis by (simp add: read_chapter_enhanced_def)
next
  case (Inr r)
  show ?thesis
  proof (cases r)
    case None
    with Inr show ?thesis by (simp add: read_chapter_enhanced_def)
  next
    case (Some pages)
    show ?thesis
    proof (cases inp)
      case Nil
      with Inr Some show ?thesis by (simp add: read_chapter_enhanced_def)
    next
      case (Cons x rest)
      show ?thesis
      proof (cases x)
        case Interrupt
        with Inr Some Cons show ?thesis by (simp add: read_chapter_enhanced_def)
      next
        case (Line s)
        define dc where "dc = (if strip s = [] then ''1'' else strip s)"
        obtain r' evs files' rest' where
          l: "page_loop e pages mp 0 0 dc files rest = (r', evs, files', rest')"
          by (cases "page_loop e pages mp 0 0 dc files rest") auto
        obtain cr cevs files'' where
          c: "cleanup e (temp_numbers pages) files' = (cr, cevs, files'')"
          by (cases "cleanup e (temp_numbers pages) files'") auto
        have rm: "\<forall>ev \<in> set cevs. \<exists>k. ev = RemoveTemp k"
          using cleanup_removes [of _ e "temp_numbers pages" files'] c by simp
        have "fst (snd (read_chapter_enhanced e manga_id cn mp files inp)) = evs @ [] \<or>
              fst (snd (read_chapter_enhanced e manga_id cn mp files inp)) = evs @ cevs"
          using Inr Some Cons Line l c
          by (cases r'; cases cr) (simp_all add: read_chapter_enhanced_def dc_def [symmetric])
        then show ?thesis
        proof
          assume "fst (snd (read_chapter_enhanced e manga_id cn mp files inp)) = evs @ []"
          with l Inr Some show ?thesis
            by (intro disjI2 exI [of _ pages] exI [of _ dc] exI [of _ rest] exI [of _ "[]"]) simp
        next
          assume "fst (snd (read_chapter_enhanced e manga_id cn mp files inp)) = evs @ cevs"
          with l Inr Some rm show ?thesis
            by (intro disjI2 exI [of _ pages] exI [of _ dc] exI [of _ rest] exI [of _ cevs]) simp
        qed
      qed
    qed
  qed
qed

text \<open>
  C5: in every session that reaches its pages, each page fetch and each wait for input
  happens at an index \<open>i\<close> with \<open>0 \<le> i < min(max_pages, len(pages))\<close>; no index at
  or beyond that bound is ever tried, not even by a lookup \<open>pages[i]\<close> that raises.
  With \<open>max_pages = 5\<close> and three pages the session visits the indices 0, 1, 2 and
  ends after the input at index 2.
\<close>

theorem walker_index_in_range:
  assumes "open_chapter e manga_id cn = Inr (Some pages)"
  shows "\<forall>ev \<in> set (fst (snd (read_chapter_enhanced e manga_id cn mp files inp))).
           index_in_range (min mp (int (length pages))) ev"
proof -
  from read_events_cases [of e manga_id cn mp files inp]
  show ?thesis
  proof
    assume "fst (snd (read_chapter_enhanced e manga_id cn mp files inp)) = []"
    then show ?thesis by simp
  next
    assume "\<exists>pages dc rest cevs. open_chapter e manga_id cn = Inr (Some pages) \<and>
      fst (snd (read_chapter_enhanced e manga_id cn mp files inp)) =
         fst (snd (page_loop e pages mp 0 0 dc files rest)) @ cevs \<and>
      (\<forall>ev \<in> set cevs. \<exists>k. ev = RemoveTemp k)"
    then obtain ps dc rest cevs where
      o: "open_chapter e manga_id cn = Inr (Some ps)" and
      ev: "fst (snd (read_chapter_enhanced e manga_id cn mp files inp)) =
             fst (snd (page_loop e ps mp 0 0 dc files rest)) @ cevs" and
      rm: "\<forall>ev \<in> set cevs. \<exists>k. ev = RemoveTemp k"
      by blast
    from o assms have ps: "ps = pages" by simp
    from loop_index_in_range [of 0 e pages mp 0 dc files rest]
      removes_harmless [OF rm, of "min mp (int (length pages))"] ev ps
    show ?thesis by auto
  qed
qed

lemma open_three: "open_chapter three_env ''m'' (IntNum 1) = Inr (Some three_pages)"
  by code_simp

lemma three_events:
  "fst (snd (read_chapter_enhanced three_env ''m'' (IntNum 1) 5 {}
      [Line ''4'', Line [], Line [], Line []])) =
   [Fetch 0 ''u/data/h/a'', Ascii 1, AwaitInput 0,
    Fetch 1 ''u/data/h/b'', Ascii 2, AwaitInput 1,
    Fetch 2 ''u/data/h/c'', Ascii 3, AwaitInput 2]"
  by code_simp

theorem walker_index_in_range_witness:
  "open_chapter three_env ''m'' (IntNum 1) = Inr (Some three_pages) \<and>
   fst (snd (read_chapter_enhanced three_env ''m'' (IntNum 1) 5 {}
      [Line ''4'', Line [], Line [], Line []])) =
   [Fetch 0 ''u/data/h/a'', Ascii 1, AwaitInput 0,
    Fetch 1 ''u/data/h/b'', Ascii 2, AwaitInput 1,
    Fetch 2 ''u/data/h/c'', Ascii 3, AwaitInput 2] \<and>
   list_all (index_in_range (min 5 (int (length three_pages))))
     (fst (snd (read_chapter_enhanced three_env ''m'' (IntNum 1) 5 {}
        [Line ''4'', Line [], Line [], Line []])))"
  using open_three three_events
    walker_index_in_range [OF open_three, of 5 "{}" "[Line ''4'', Line [], Line [], Line []]"]
  by (simp only: list_all_iff)

text \<open>
  C1, as the code has it: the downgrade to ASCII is not for the current page only. The
  failure assigns \<open>display_choice = "4"\<close>, which nothing resets. So after a failed
  attempt no strategy (native, system viewer, browser) is attempted again in the
  session, and from the page of the failure on every page is shown as ASCII: each wait
  for input, on that page and on every later one, comes right after the ASCII panel of
  its page.
\<close>

theorem fallback_persists:
  "no_attempt_after_failure (fst (snd (read_chapter_enhanced e manga_id cn mp files inp))) \<and>
   ascii_after_failure (fst (snd (read_chapter_enhanced e manga_id cn mp files inp)))"
proof -
  from read_events_cases [of e manga_id cn mp files inp]
  show ?thesis
  proof
    assume "fst (snd (read_chapter_enhanced e manga_id cn mp files inp)) = []"
    then show ?thesis by simp
  next
    assume "\<exists>pages dc rest cevs. open_chapter e manga_id cn = Inr (Some pages) \<and>
      fst (snd (read_chapter_enhanced e manga_id cn mp files inp)) =
         fst (snd (page_loop e pages mp 0 0 dc files rest)) @ cevs \<and>
      (\<forall>ev \<in> set cevs. \<exists>k. ev = RemoveTemp k)"
    then obtain ps dc rest cevs where
      ev: "fst (snd (read_chapter_enhanced e manga_id cn mp files inp)) =
             fst (snd (page_loop e ps mp 0 0 dc files rest)) @ cevs" and
      rm: "\<forall>ev \<in> set cevs. \<exists>k. ev = RemoveTemp k"
      by blast
    note h = removes_harmless [OF rm, of 0]
    have "no_attempt_after_failure (fst (snd (page_loop e ps mp 0 0 dc files rest)) @ cevs)"
      using h by (simp add: naf_append loop_no_attempt_after_failure naf_no_attempt)
    moreover have "ascii_after_failure (fst (snd (page_loop e ps mp 0 0 dc files rest)) @ cevs)"
      using h by (intro loop_ascii_after_failure) simp_all
    ultimately show ?thesis by (simp only: ev)
  qed
qed

lemma flaky_session:
  "read_chapter_enhanced flaky_env ''m'' (IntNum 1) 5 {} [Line ''2'', Line [], Line []] =
     (Inr True,
      [Fetch 0 ''u/data/h/a'', SaveTemp 1, Attempt SystemViewer 1 False, Ascii 1, AwaitInput 0,
       Fetch 1 ''u/data/h/b'', Ascii 2, AwaitInput 1, RemoveTemp 1], {}, [])"
  by code_simp

theorem fallback_persists_witness:
  "no_attempt_after_failure
     [Fetch 0 ''u/data/h/a'', SaveTemp 1, Attempt SystemViewer 1 False, Ascii 1, AwaitInput 0,
      Fetch 1 ''u/data/h/b'', Ascii 2, AwaitInput 1, RemoveTemp 1] \<and>
   ascii_after_failure
     [Fetch 0 ''u/data/h/a'', SaveTemp 1, Attempt SystemViewer 1 False, Ascii 1, AwaitInput 0,
      Fetch 1 ''u/data/h/b'', Ascii 2, AwaitInput 1, RemoveTemp 1]"
  using fallback_persists [of flaky_env "''m''" "IntNum 1" 5 "{}" "[Line ''2'', Line [], Line []]"]
  by (simp only: flaky_session fst_conv snd_conv)

text \<open>
  C1 as stated fails: the system viewer is chosen and fails on the first page only; on
  the second page it would succeed, and it is not attempted.
\<close>

theorem fallback_not_per_page_counterexample:
  "read_chapter_enhanced flaky_env ''m'' (IntNum 1) 5 {} [Line ''2'', Line [], Line []] =
     (Inr True,
      [Fetch 0 ''u/data/h/a'', SaveTemp 1, Attempt SystemViewer 1 False, Ascii 1, AwaitInput 0,
       Fetch 1 ''u/data/h/b'', Ascii 2, AwaitInput 1, RemoveTemp 1], {}, []) \<and>
   display_image_terminal flaky_env 1 2 = True"
  by code_simp

lemma caught_error_stops:
  assumes "\<And>n u. fetch_image e n u \<noteq> Some KeyboardInterrupt"
    and "\<And>n k. image_save e n k \<noteq> Some KeyboardInterrupt"
    and "\<And>n k. show_ascii e n k \<noteq> Some KeyboardInterrupt"
    and "getitem ps i = Inr url"
    and "fetch_image e n url = Some x \<or> fst (display_page e n i url dc fs) = Inl x"
  shows "fst (page_step e ps n i dc fs inp2) = Stop None \<and>
         snd (snd (snd (page_step e ps n i dc fs inp2))) = inp2"
proof (cases "fetch_image e n url")
  case (Some y)
  with assms(1) [of n url] have "y \<noteq> KeyboardInterrupt" by auto
  with Some assms(4) show ?thesis by (simp add: page_step_def handler_None)
next
  case None
  obtain r devs dfiles where d: "display_page e n i url dc fs = (r, devs, dfiles)"
    by (cases "display_page e n i url dc fs") auto
  with None assms(5) have r: "r = Inl x" by simp
  from display_page_cases [OF d, of 0] r assms(2,3) have "x \<noteq> KeyboardInterrupt" by metis
  with None assms(4) d r show ?thesis by (simp add: page_step_def handler_None)
qed

text \<open>
  C2, as the code has it: when nothing escapes before the prompt, no interrupt occurs
  in the page loop and removing the temporary files does not raise,
  \<open>read_chapter_enhanced\<close> returns a boolean. It is \<open>True\<close> exactly when the
  page loop was reached (pages were found and the prompt was answered), whether or not
  a page was displayed; when it is \<open>False\<close> nothing was fetched or displayed. An
  exception deriving from \<open>Exception\<close> that a fetch, a save or a rendering raises in
  an iteration is caught and ends the loop there: nothing escapes, no further page is
  fetched and no further input is read.
\<close>

theorem session_result:
  assumes "open_chapter e manga_id cn = Inr r"
    and "\<And>n u. fetch_image e n u \<noteq> Some KeyboardInterrupt"
    and "\<And>n k. image_save e n k \<noteq> Some KeyboardInterrupt"
    and "\<And>n k. show_ascii e n k \<noteq> Some KeyboardInterrupt"
    and "\<And>k. os_remove e k = None"
    and "Interrupt \<notin> set (tl inp)"
  shows "(\<exists>b. fst (read_chapter_enhanced e manga_id cn mp files inp) = Inr b \<and>
            (b \<longleftrightarrow> r \<noteq> None \<and> (\<exists>s rest. inp = Line s # rest)) \<and>
            (\<not> b \<longrightarrow> fst (snd (read_chapter_enhanced e manga_id cn mp files inp)) = [])) \<and>
         (i < min mp (int (length ps)) \<and> getitem ps i = Inr url \<and>
          (fetch_image e n url = Some x \<or> fst (display_page e n i url dc fs) = Inl x) \<longrightarrow>
            page_loop e ps mp n i dc fs inp2 = (None, snd (page_step e ps n i dc fs inp2)) \<and>
            snd (snd (snd (page_step e ps n i dc fs inp2))) = inp2)"
proof
  show "\<exists>b. fst (read_chapter_enhanced e manga_id cn mp files inp) = Inr b \<and>
            (b \<longleftrightarrow> r \<noteq> None \<and> (\<exists>s rest. inp = Line s # rest)) \<and>
            (\<not> b \<longrightarrow> fst (snd (read_chapter_enhanced e manga_id cn mp files inp)) = [])"
  proof (cases r)
    case None
    with assms(1) show ?thesis by (auto simp: read_chapter_enhanced_def)
  next
    case (Some pages)
    show ?thesis
    proof (cases inp)
      case Nil
      with assms(1) Some show ?thesis by (auto simp: read_chapter_enhanced_def)
    next
      case (Cons y rest)
      show ?thesis
      proof (cases y)
        case Interrupt
        with assms(1) Some Cons show ?thesis by (auto simp: read_chapter_enhanced_def)
      next
        case (Line s)
        define c where "c = (if strip s = [] then ''1'' else strip s)"
        obtain r' evs files' rest' where
          l: "page_loop e pages mp 0 0 c files rest = (r', evs, files', rest')"
          by (cases "page_loop e pages mp 0 0 c files rest") auto
        obtain cr cevs files'' where
          cl: "cleanup e (temp_numbers pages) files' = (cr, cevs, files'')"
          by (cases "cleanup e (temp_numbers pages) files'") auto
        have "Interrupt \<notin> set rest" using assms(6) Cons by simp
        from loop_no_escape [OF assms(2,3,4) this, of pages mp 0 0 c files] l
        have r': "r' = None" by simp
        from cleanup_ok [of e "temp_numbers pages" files'] assms(5) cl
        have cr: "cr = None" by simp
        from assms(1) Some Cons Line l cl r' cr show ?thesis
          by (auto simp: read_chapter_enhanced_def c_def [symmetric])
      qed
    qed
  qed
next
  show "i < min mp (int (length ps)) \<and> getitem ps i = Inr url \<and>
          (fetch_image e n url = Some x \<or> fst (display_page e n i url dc fs) = Inl x) \<longrightarrow>
            page_loop e ps mp n i dc fs inp2 = (None, snd (page_step e ps n i dc fs inp2)) \<and>
            snd (snd (snd (page_step e ps n i dc fs inp2))) = inp2"
  proof
    assume a: "i < min mp (int (length ps)) \<and> getitem ps i = Inr url \<and>
          (fetch_image e n url = Some x \<or> fst (display_page e n i url dc fs) = Inl x)"
    obtain st evs files' inp' where
      s: "page_step e ps n i dc fs inp2 = (st, evs, files', inp')"
      by (cases "page_step e ps n i dc fs inp2") auto
    from caught_error_stops [OF assms(2,3,4), of ps i url n x dc fs inp2] a s
    have st: "st = Stop None" and inp': "inp' = inp2" by simp_all
    from a have "i < min mp (int (length ps))" by simp
    from page_loop_stop [OF this s [unfolded st]] s st inp'
    show "page_loop e ps mp n i dc fs inp2 = (None, snd (page_step e ps n i dc fs inp2)) \<and>
            snd (snd (snd (page_step e ps n i dc fs inp2))) = inp2"
      by simp
  qed
qed

lemma open_broken: "open_chapter broken_env ''m'' (IntNum 1) = Inr (Some example_pages)"
  by code_simp

lemma broken_step:
  "snd (page_step broken_env example_pages 0 0 ''4'' {} [Line ''q'']) =
     ([Fetch 0 ''u/data/h/a''], {}, [Line ''q''])"
  by code_simp

theorem session_result_witness:
  "open_chapter broken_env ''m'' (IntNum 1) = Inr (Some example_pages) \<and>
   fst (read_chapter_enhanced broken_env ''m'' (IntNum 1) 5 {} [Line ''4'', Line ''q'']) =
     Inr True \<and>
   fetch_image broken_env 0 ''u/data/h/a'' = Some RequestException \<and>
   page_loop broken_env example_pages 5 0 0 ''4'' {} [Line ''q''] =
     (None, [Fetch 0 ''u/data/h/a''], {}, [Line ''q''])"
proof -
  have a: "\<And>n u. fetch_image broken_env n u \<noteq> Some KeyboardInterrupt"
    and b: "\<And>n k. image_save broken_env n k \<noteq> Some KeyboardInterrupt"
    and c: "\<And>n k. show_ascii broken_env n k \<noteq> Some KeyboardInterrupt"
    and d: "\<And>k. os_remove broken_env k = None"
    by (simp_all add: broken_env_def example_env_def)
  have f: "Interrupt \<notin> set (tl [Line ''4'', Line ''q''])" by simp
  have g: "getitem example_pages 0 = Inr ''u/data/h/a''"
    by (simp add: getitem_def example_pages_def)
  have h: "fetch_image broken_env 0 ''u/data/h/a'' = Some RequestException"
    by (simp add: broken_env_def)
  have k: "(0 :: int) < min 5 (int (length example_pages))"
    by (simp add: example_pages_def)
  from session_result [where e = broken_env and inp = "[Line ''4'', Line ''q'']" and mp = 5
      and files = "{}" and i = 0 and ps = example_pages and url = "''u/data/h/a''" and n = 0
      and x = RequestException and dc = "''4''" and fs = "{}" and ?inp2.0 = "[Line ''q'']",
      OF open_broken a b c d f]
    open_broken g h k broken_step
  show ?thesis by auto
qed

text \<open>
  C2 as stated fails: when the fetch of the first page fails the session returns
  \<open>True\<close> although no page was displayed; and an interrupt at the input of the loop
  escapes the method.
\<close>

theorem session_result_counterexample:
  "read_chapter_enhanced broken_env ''m'' (IntNum 1) 5 {} [Line ''4''] =
     (Inr True, [Fetch 0 ''u/data/h/a''], {}, []) \<and>
   \<not> list_ex displayed [Fetch 0 ''u/data/h/a''] \<and>
   fst (read_chapter_enhanced example_env ''m'' (IntNum 1) 5 {} [Line ''4'', Interrupt]) =
     Inl KeyboardInterrupt"
  by code_simp

end
